theory Spec2Isabelle
  imports Complex_Main "HOL-Library.Word" "HOL-Library.Log_Nat"
begin

section \<open>The chained hash map of \<^verbatim>\<open>src/main.js\<close>\<close>

text \<open>
  The JavaScript class \<^verbatim>\<open>HashMap\<close> keeps an array of bucket heads, each the head of a
  singly linked chain of \<^verbatim>\<open>Node\<close>s. Every node belongs to exactly one chain and the
  code never shares a node between two chains (\<^verbatim>\<open>set\<close> allocates a fresh node,
  \<^verbatim>\<open>resize\<close> re-inserts by key and value), so a chain is modelled as the list of its
  (key, value) pairs in chain order, \<open>[]\<close> being the \<^verbatim>\<open>null\<close> head.

  A key is a JavaScript string: a sequence of UTF-16 code units, each read by
  \<^verbatim>\<open>charCodeAt\<close> as a number in \<open>[0, 65535]\<close>.

  Numbers: \<^verbatim>\<open>capacity\<close> is an array length, a natural number; \<^verbatim>\<open>size\<close> is
  incremented and decremented, an integer; \<^verbatim>\<open>loadFactor\<close> is a finite number, given
  by its rational value. The quotient \<^verbatim>\<open>size / capacity\<close> is the double-precision
  quotient of the code: the exact quotient rounded to the nearest double, ties to the
  even significand. All other arithmetic of the code (\<open>31 * hashCode + code\<close>, the
  remainder, \<open>capacity * 2\<close>, \<open>size + 1\<close>) is exact in doubles for operands below
  \<^verbatim>\<open>2^53\<close>, which array lengths and entry counts are. The host's limit on array
  lengths and memory is not modelled: allocation of the bucket array always succeeds.
\<close>

type_synonym key = "16 word list"

type_synonym 'v chain = "(key \<times> 'v) list"

record 'v hashmap =
  loadFactor :: rat
  capacity :: nat
  buckets :: "'v chain list"
  size_hm :: int

text \<open>The two exceptions \<^verbatim>\<open>set\<close> can end with: the explicit
  \<^verbatim>\<open>throw new Error("Trying to access index out of bound")\<close>, and the \<^verbatim>\<open>TypeError\<close>
  of \<^verbatim>\<open>bucket.next = node\<close> on an \<^verbatim>\<open>undefined\<close> bucket.\<close>

datatype error = OutOfBound | TypeError

text \<open>The result of \<^verbatim>\<open>hash\<close> is a number; it is \<^verbatim>\<open>NaN\<close> exactly when a remainder
  by a zero capacity has been taken.\<close>

datatype index = NaN | Idx nat

text \<open>The constructor, \<^verbatim>\<open>new HashMap(initialSize, loadFactor)\<close>.\<close>

definition new_map :: "nat \<Rightarrow> rat \<Rightarrow> 'v hashmap" where
  "new_map initialSize lf =
     \<lparr>loadFactor = lf, capacity = initialSize, buckets = replicate initialSize [], size_hm = 0\<rparr>"

text \<open>\<^verbatim>\<open>hash\<close>: one round of the loop, and the loop over the key's code units.
  \<^verbatim>\<open>x % 0\<close> is \<^verbatim>\<open>NaN\<close>, and \<^verbatim>\<open>NaN\<close> stays \<^verbatim>\<open>NaN\<close> through the arithmetic.\<close>

fun hash_step :: "nat \<Rightarrow> index \<Rightarrow> 16 word \<Rightarrow> index" where
  "hash_step cap NaN c = NaN"
| "hash_step cap (Idx hashCode) c =
     (if cap = 0 then NaN else Idx ((31 * hashCode + unat c) mod cap))"

definition hash :: "'v hashmap \<Rightarrow> key \<Rightarrow> index" where
  "hash s key = foldl (hash_step (capacity s)) (Idx 0) key"

text \<open>\<^verbatim>\<open>this.buckets[index]\<close>: \<^verbatim>\<open>undefined\<close> for \<^verbatim>\<open>NaN\<close> and beyond the array, which
  the loops of \<^verbatim>\<open>get\<close>, \<^verbatim>\<open>has\<close> and \<^verbatim>\<open>remove\<close> treat like an empty chain.\<close>

fun bucket_at :: "'v hashmap \<Rightarrow> index \<Rightarrow> 'v chain" where
  "bucket_at s NaN = []"
| "bucket_at s (Idx i) = (if i < length (buckets s) then buckets s ! i else [])"

text \<open>Division of two positive integers in double precision. With \<open>e\<close> the binade
  of the exact quotient, \<^verbatim>\<open>2^e <= a / b < 2^(e+1)\<close>, the quotient scaled by
  \<^verbatim>\<open>2^(52-e)\<close> lies in \<^verbatim>\<open>[2^52, 2^53)\<close>; it is rounded to the nearest integer, a
  tie to the even one, and that 53-bit significand scaled back is the double. (For
  operands below \<^verbatim>\<open>2^53\<close> the quotient is in the range of normal doubles.)
  \<open>bitlen a\<close> is the number of binary digits of \<open>a\<close>.\<close>

definition binade :: "int \<Rightarrow> int \<Rightarrow> int" where
  "binade a b =
     (let d = bitlen a - bitlen b
      in if b * 2 ^ nat d \<le> a * 2 ^ nat (- d) then d else d - 1)"

definition round_half_even :: "int \<Rightarrow> int \<Rightarrow> int" where
  "round_half_even n d =
     (let f = n div d; r = n mod d
      in if 2 * r < d \<or> (2 * r = d \<and> even f) then f else f + 1)"

definition double_quotient :: "int \<Rightarrow> int \<Rightarrow> rat" where
  "double_quotient a b =
     (let k = 52 - binade a b
      in of_int (round_half_even (a * 2 ^ nat k) (b * 2 ^ nat (- k)))
           * 2 ^ nat (- k) / 2 ^ nat k)"

text \<open>\<^verbatim>\<open>size / capacity\<close> for a positive capacity: the sign is that of the size.\<close>

definition js_divide :: "int \<Rightarrow> nat \<Rightarrow> rat" where
  "js_divide a b =
     (if a = 0 then 0
      else if 0 < a then double_quotient a (int b)
      else - double_quotient (- a) (int b))"

text \<open>The test \<^verbatim>\<open>this.size / this.capacity > this.loadFactor\<close>. With a zero capacity
  the quotient is \<^verbatim>\<open>Infinity\<close> for a positive size and \<^verbatim>\<open>NaN\<close> or \<^verbatim>\<open>-Infinity\<close>
  otherwise.\<close>

definition over_threshold :: "'v hashmap \<Rightarrow> bool" where
  "over_threshold s =
     (if capacity s = 0 then 0 < size_hm s
      else loadFactor s < js_divide (size_hm s) (capacity s))"

text \<open>The chain walk of \<^verbatim>\<open>set\<close> (lines 58 to 71) on a non-empty chain with head
  \<open>n\<close>: overwrite the value of the node with an equal key, or link the new node behind
  the last one.\<close>

fun walk :: "key \<Rightarrow> 'v \<Rightarrow> key \<times> 'v \<Rightarrow> 'v chain \<Rightarrow> 'v chain" where
  "walk key val n [] =
     (if fst n = key then [(fst n, val)] else [n, (key, val)])"
| "walk key val n (m # rest) =
     (if fst n = key then (fst n, val) # m # rest else n # walk key val m rest)"

text \<open>Lines 41 to 71 of \<^verbatim>\<open>set\<close>, what follows the resize test. The size is
  incremented before anything is known about the key.\<close>

definition set_body :: "'v hashmap \<Rightarrow> key \<Rightarrow> 'v \<Rightarrow> error + 'v hashmap" where
  "set_body s key val =
     (case hash s key of
        NaN \<Rightarrow> Inl TypeError
      | Idx i \<Rightarrow>
          if length (buckets s) \<le> i then Inl OutOfBound
          else (case buckets s ! i of
                  [] \<Rightarrow> Inr (s\<lparr>buckets := (buckets s)[i := [(key, val)]],
                               size_hm := size_hm s + 1\<rparr>)
                | n # rest \<Rightarrow> Inr (s\<lparr>buckets := (buckets s)[i := walk key val n rest],
                                     size_hm := size_hm s + 1\<rparr>)))"

text \<open>\<^verbatim>\<open>get\<close>: the loop over the chain, and the method. \<^verbatim>\<open>undefined\<close>, the result
  for a key that is not found, is \<open>None\<close>.\<close>

fun get_loop :: "key \<Rightarrow> 'v chain \<Rightarrow> 'v option" where
  "get_loop key [] = None"
| "get_loop key (n # rest) = (if fst n = key then Some (snd n) else get_loop key rest)"

definition get :: "'v hashmap \<Rightarrow> key \<Rightarrow> 'v option" where
  "get s key = get_loop key (bucket_at s (hash s key))"

text \<open>\<^verbatim>\<open>has\<close>.\<close>

fun has_loop :: "key \<Rightarrow> 'v chain \<Rightarrow> bool" where
  "has_loop key [] = False"
| "has_loop key (n # rest) = (if fst n = key then True else has_loop key rest)"

definition has :: "'v hashmap \<Rightarrow> key \<Rightarrow> bool" where
  "has s key = has_loop key (bucket_at s (hash s key))"

text \<open>\<^verbatim>\<open>remove\<close>: the loop gives the chain with the first node of that key unlinked
  (\<^verbatim>\<open>prevNode.next = bucket.next\<close>, or the new head), or \<open>None\<close> when it runs off the
  chain. The method returns its boolean together with the state it leaves.\<close>

fun remove_loop :: "key \<Rightarrow> 'v chain \<Rightarrow> 'v chain option" where
  "remove_loop key [] = None"
| "remove_loop key (n # rest) =
     (if fst n = key then Some rest
      else (case remove_loop key rest of
              None \<Rightarrow> None
            | Some rest' \<Rightarrow> Some (n # rest')))"

definition remove_hm :: "'v hashmap \<Rightarrow> key \<Rightarrow> bool \<times> 'v hashmap" where
  "remove_hm s key =
     (case hash s key of
        NaN \<Rightarrow> (False, s)
      | Idx i \<Rightarrow>
          if length (buckets s) \<le> i then (False, s)
          else (case remove_loop key (buckets s ! i) of
                  None \<Rightarrow> (False, s)
                | Some ch \<Rightarrow>
                    (True, s\<lparr>buckets := (buckets s)[i := ch], size_hm := size_hm s - 1\<rparr>)))"

text \<open>\<^verbatim>\<open>length\<close>, \<^verbatim>\<open>clear\<close>, and the enumerations \<^verbatim>\<open>entries\<close>, \<^verbatim>\<open>keys\<close>,
  \<^verbatim>\<open>values\<close>: buckets in array order, each chain in chain order.\<close>

definition length_hm :: "'v hashmap \<Rightarrow> int" where
  "length_hm s = size_hm s"

definition clear :: "'v hashmap \<Rightarrow> 'v hashmap" where
  "clear s = s\<lparr>buckets := replicate (capacity s) [], size_hm := 0\<rparr>"

definition entries :: "'v hashmap \<Rightarrow> (key \<times> 'v) list" where
  "entries s = concat (buckets s)"

definition keys :: "'v hashmap \<Rightarrow> key list" where
  "keys s = map fst (concat (buckets s))"

definition values_hm :: "'v hashmap \<Rightarrow> 'v list" where
  "values_hm s = map snd (concat (buckets s))"

subsection \<open>The invariants of the data model\<close>

text \<open>The shape every operation keeps: a positive capacity that is the length of the
  bucket array.\<close>

definition shape :: "'v hashmap \<Rightarrow> bool" where
  "shape s \<longleftrightarrow> 0 < capacity s \<and> length (buckets s) = capacity s"

text \<open>A chain is in order for slot \<open>i\<close> when its keys are pairwise different and each
  hashes to \<open>i\<close> under the current capacity.\<close>

definition chain_ok :: "'v hashmap \<Rightarrow> nat \<Rightarrow> 'v chain \<Rightarrow> bool" where
  "chain_ok s i ch \<longleftrightarrow> distinct (map fst ch) \<and> list_all (\<lambda>n. hash s (fst n) = Idx i) ch"

definition invar :: "'v hashmap \<Rightarrow> bool" where
  "invar s \<longleftrightarrow>
     shape s \<and> list_all (\<lambda>(i, ch). chain_ok s i ch) (enumerate 0 (buckets s))"

subsection \<open>The hash as the specification words it\<close>

text \<open>The left fold of \<open>index = (31 * index + characterCode) mod capacity\<close> from 0.\<close>

definition hash_spec :: "nat \<Rightarrow> key \<Rightarrow> nat" where
  "hash_spec cap key = foldl (\<lambda>index c. (31 * index + unat c) mod cap) 0 key"

subsection \<open>Auxiliary notions for the proofs\<close>

text \<open>What lines 51 to 71 of \<^verbatim>\<open>set\<close> make of the chain of the key's slot.\<close>

definition chain_set :: "key \<Rightarrow> 'v \<Rightarrow> 'v chain \<Rightarrow> 'v chain" where
  "chain_set key val ch = (case ch of [] \<Rightarrow> [(key, val)] | n # rest \<Rightarrow> walk key val n rest)"

text \<open>A chain without its first node of a key.\<close>

definition unlinked :: "key \<Rightarrow> 'v chain \<Rightarrow> 'v chain" where
  "unlinked key ch =
     takeWhile (\<lambda>n. fst n \<noteq> key) ch @ tl (dropWhile (\<lambda>n. fst n \<noteq> key) ch)"

subsection \<open>\<^verbatim>\<open>set\<close> and \<^verbatim>\<open>resize\<close>\<close>

text \<open>\<^verbatim>\<open>set\<close> and \<^verbatim>\<open>resize\<close> call each other; \<open>rehash\<close> is the loop of
  \<^verbatim>\<open>resize\<close> over the nodes of the old bucket array, in array order and chain order.\<close>

function set_hm :: "'v hashmap \<Rightarrow> key \<Rightarrow> 'v \<Rightarrow> error + 'v hashmap"
  and resize :: "'v hashmap \<Rightarrow> nat \<Rightarrow> error + 'v hashmap"
  and rehash :: "'v hashmap \<Rightarrow> 'v chain \<Rightarrow> error + 'v hashmap"
where
  "set_hm s key val =
     (case (if over_threshold s then resize s (capacity s * 2) else Inr s) of
        Inl e \<Rightarrow> Inl e
      | Inr s1 \<Rightarrow> set_body s1 key val)"
| "resize s c =
     rehash (s\<lparr>capacity := c, size_hm := 0, buckets := replicate c []\<rparr>) (concat (buckets s))"
| "rehash s [] = Inr s"
| "rehash s (n # rest) =
     (case set_hm s (fst n) (snd n) of
        Inl e \<Rightarrow> Inl e
      | Inr s1 \<Rightarrow> rehash s1 rest)"
  by pat_completeness auto

subsection \<open>Sequences of calls\<close>

text \<open>A sequence of \<^verbatim>\<open>set\<close> calls, one per (key, value) pair, in order; an exception
  ends it.\<close>

fun set_all :: "'v hashmap \<Rightarrow> (key \<times> 'v) list \<Rightarrow> error + 'v hashmap" where
  "set_all s [] = Inr s"
| "set_all s (kv # kvs) =
     (case set_hm s (fst kv) (snd kv) of
        Inl e \<Rightarrow> Inl e
      | Inr s1 \<Rightarrow> set_all s1 kvs)"

text \<open>The states a client can bring about: a map constructed with a positive initial
  size, and what the mutating methods make of it when they return. \<^verbatim>\<open>resize\<close> is a
  public method too; it is taken with a positive argument.\<close>

inductive reachable :: "'v hashmap \<Rightarrow> bool" where
  constructed: "0 < initialSize \<Longrightarrow> reachable (new_map initialSize lf)"
| after_set: "reachable s \<Longrightarrow> set_hm s key val = Inr s' \<Longrightarrow> reachable s'"
| after_remove: "reachable s \<Longrightarrow> reachable (snd (remove_hm s key))"
| after_clear: "reachable s \<Longrightarrow> reachable (clear s)"
| after_resize: "reachable s \<Longrightarrow> 0 < c \<Longrightarrow> resize s c = Inr s' \<Longrightarrow> reachable s'"

section \<open>Termination of \<^verbatim>\<open>set\<close> and \<^verbatim>\<open>resize\<close>\<close>

text \<open>A resize re-inserts into an empty array, so the number of entries bounds the
  depth of the calls: a partial-correctness bound on the entries comes first.\<close>

lemma length_concat_update:
  "i < length xs \<Longrightarrow>
     length (concat (xs[i := ys])) + length (xs ! i) = length (concat xs) + length ys"
proof (induction xs arbitrary: i)
  case Nil
  then show ?case by simp
next
  case (Cons x xs)
  then show ?case by (cases i) auto
qed

lemma length_walk_le: "length (walk k v n rest) \<le> Suc (Suc (length rest))"
  by (induction k v n rest rule: walk.induct) auto

lemma set_body_cases:
  assumes "set_body s k v = Inr s'"
  obtains i where "hash s k = Idx i" "i < length (buckets s)" "buckets s ! i = []"
      "s' = s\<lparr>buckets := (buckets s)[i := [(k, v)]], size_hm := size_hm s + 1\<rparr>"
  | i n rest where "hash s k = Idx i" "i < length (buckets s)" "buckets s ! i = n # rest"
      "s' = s\<lparr>buckets := (buckets s)[i := walk k v n rest], size_hm := size_hm s + 1\<rparr>"
  using assms unfolding set_body_def
  by (auto split: index.splits if_splits list.splits)

lemma set_body_entries_le:
  assumes "set_body s k v = Inr s'"
  shows "length (entries s') \<le> Suc (length (entries s))"
  using assms
proof (cases rule: set_body_cases)
  case (1 i)
  with length_concat_update[of i "buckets s" "[(k, v)]"] show ?thesis
    by (simp add: entries_def)
next
  case (2 i n rest)
  with length_concat_update[of i "buckets s" "walk k v n rest"] length_walk_le[of k v n rest]
  show ?thesis
    by (simp add: entries_def)
qed

lemma entries_le_dom:
  "set_hm_resize_rehash_dom (Inl (s, k, v)) \<Longrightarrow>
     set_hm s k v = Inr s' \<Longrightarrow> length (entries s') \<le> Suc (length (entries s))"
  "set_hm_resize_rehash_dom (Inr (Inl (s, c))) \<Longrightarrow>
     resize s c = Inr s' \<Longrightarrow> length (entries s') \<le> length (entries s)"
  "set_hm_resize_rehash_dom (Inr (Inr (s, es))) \<Longrightarrow>
     rehash s es = Inr s' \<Longrightarrow> length (entries s') \<le> length (entries s) + length es"
proof (induct s k v and s c and s es arbitrary: s' and s' and s'
    rule: set_hm_resize_rehash.pinduct)
  case (1 s key val)
  show ?case
  proof (cases "over_threshold s")
    case True
    with "1.prems" "1.hyps"(1) obtain s1 where r: "resize s (capacity s * 2) = Inr s1"
      and b: "set_body s1 key val = Inr s'"
      by (auto simp: set_hm.psimps split: sum.splits)
    from "1.hyps"(2)[OF True r] set_body_entries_le[OF b] show ?thesis by simp
  next
    case False
    with "1.prems" "1.hyps"(1) have "set_body s key val = Inr s'"
      by (simp add: set_hm.psimps)
    then show ?thesis by (rule set_body_entries_le)
  qed
next
  case (2 s c)
  from "2.prems" "2.hyps"(1)
  have "rehash (s\<lparr>capacity := c, size_hm := 0, buckets := replicate c []\<rparr>) (concat (buckets s)) = Inr s'"
    by (simp add: resize.psimps)
  from "2.hyps"(2)[OF this] show ?case by (simp add: entries_def)
next
  case (3 s)
  then show ?case by (simp add: rehash.psimps)
next
  case (4 s n rest)
  from "4.prems" "4.hyps"(1) obtain s1 where a: "set_hm s (fst n) (snd n) = Inr s1"
    and b: "rehash s1 rest = Inr s'"
    by (auto simp: rehash.psimps split: sum.splits)
  from "4.hyps"(2)[OF a] "4.hyps"(3)[OF a b] show ?case by simp
qed

termination set_hm
proof (relation "(\<lambda>x. case x of
          Inl (s, k, v) \<Rightarrow> length (entries s)
        | Inr (Inl (s, c)) \<Rightarrow> length (entries s)
        | Inr (Inr (s, es)) \<Rightarrow> length (entries s) + length es)
      <*mlex*> (\<lambda>x. case x of
          Inl (s, k, v) \<Rightarrow> 2
        | Inr (Inl (s, c)) \<Rightarrow> Suc 0
        | Inr (Inr (s, es)) \<Rightarrow> 0)
      <*mlex*> measure (\<lambda>x. case x of
          Inl (s, k, v) \<Rightarrow> 0
        | Inr (Inl (s, c)) \<Rightarrow> 0
        | Inr (Inr (s, es)) \<Rightarrow> length es)", goal_cases)
  case 1
  show ?case by (simp add: wf_mlex)
next
  case (2 s key val)
  then show ?case by (simp add: mlex_iff)
next
  case (3 s c)
  then show ?case by (simp add: mlex_iff entries_def)
next
  case (4 s n rest)
  then show ?case by (simp add: mlex_iff)
next
  case (5 s n rest s1)
  then have "length (entries s1) \<le> Suc (length (entries s))"
    by (metis entries_le_dom(1))
  then show ?case
    by (auto simp: mlex_iff)
qed

section \<open>The hash\<close>

lemma foldl_hash_step:
  "0 < cap \<Longrightarrow>
     foldl (hash_step cap) (Idx h) key =
       Idx (foldl (\<lambda>index c. (31 * index + unat c) mod cap) h key)"
  by (induction key arbitrary: h) auto

lemma foldl_mod_less:
  "0 < cap \<Longrightarrow> h < cap \<Longrightarrow>
     foldl (\<lambda>index c. (31 * index + unat c) mod cap) h key < (cap::nat)"
  by (induction key arbitrary: h) auto

lemma hash_eq_spec: "0 < capacity s \<Longrightarrow> hash s key = Idx (hash_spec (capacity s) key)"
  by (simp add: hash_def hash_spec_def foldl_hash_step)

lemma hash_spec_less: "0 < cap \<Longrightarrow> hash_spec cap key < cap"
  by (simp add: hash_spec_def foldl_mod_less)

section \<open>Chains\<close>

lemma has_loop_iff_get_loop: "has_loop k ch \<longleftrightarrow> get_loop k ch \<noteq> None"
  by (induction ch) auto

lemma has_loop_iff_keys: "has_loop k ch \<longleftrightarrow> k \<in> fst ` set ch"
  by (induction ch) auto

lemma get_loop_eq_map_of: "get_loop k ch = map_of ch k"
  by (induction ch) auto

lemma get_walk_same: "get_loop k (walk k v n rest) = Some v"
  by (induction k v n rest rule: walk.induct) auto

lemma get_walk_other:
  "k' \<noteq> k \<Longrightarrow> get_loop k' (walk k v n rest) = get_loop k' (n # rest)"
  by (induction k v n rest rule: walk.induct) auto

lemma keys_walk:
  "map fst (walk k v n rest) =
     (if k \<in> fst ` set (n # rest) then map fst (n # rest) else map fst (n # rest) @ [k])"
  by (induction k v n rest rule: walk.induct) auto

lemma walk_id: "get_loop k (n # rest) = Some v \<Longrightarrow> walk k v n rest = n # rest"
  by (induction k v n rest rule: walk.induct) (auto split: if_splits)

lemma get_chain_set_same: "get_loop k (chain_set k v ch) = Some v"
  by (simp add: chain_set_def get_walk_same split: list.splits)

lemma get_chain_set_other: "k' \<noteq> k \<Longrightarrow> get_loop k' (chain_set k v ch) = get_loop k' ch"
  by (simp add: chain_set_def get_walk_other split: list.splits)

lemma keys_chain_set:
  "map fst (chain_set k v ch) =
     (if k \<in> fst ` set ch then map fst ch else map fst ch @ [k])"
proof (cases ch)
  case Nil
  then show ?thesis by (simp add: chain_set_def)
next
  case (Cons n rest)
  then show ?thesis by (simp only: chain_set_def list.case keys_walk)
qed

lemma chain_set_id: "get_loop k ch = Some v \<Longrightarrow> chain_set k v ch = ch"
  by (cases ch) (simp_all add: chain_set_def walk_id del: walk.simps)

section \<open>The body of set\<close>

lemma set_body_shape:
  assumes "shape s"
  shows "set_body s k v =
     Inr (s\<lparr>buckets := (buckets s)[hash_spec (capacity s) k :=
                 chain_set k v (buckets s ! hash_spec (capacity s) k)],
            size_hm := size_hm s + 1\<rparr>)"
proof -
  from assms have c: "0 < capacity s" and l: "length (buckets s) = capacity s"
    by (simp_all add: shape_def)
  from c have "hash s k = Idx (hash_spec (capacity s) k)"
    by (rule hash_eq_spec)
  moreover from c l have "hash_spec (capacity s) k < length (buckets s)"
    by (simp add: hash_spec_less)
  ultimately show ?thesis
    by (simp add: set_body_def chain_set_def split: list.splits)
qed

lemma set_hm_unfold:
  "set_hm s k v =
     (if over_threshold s
      then (case resize s (capacity s * 2) of Inl e \<Rightarrow> Inl e | Inr s1 \<Rightarrow> set_body s1 k v)
      else set_body s k v)"
  by simp

declare set_hm.simps [simp del] resize.simps [simp del]

section \<open>Every call returns, and keeps the shape\<close>

lemma set_body_keeps_shape:
  assumes "shape s"
  shows "\<exists>s'. set_body s k v = Inr s' \<and> shape s' \<and> capacity s' = capacity s \<and>
           loadFactor s' = loadFactor s \<and> size_hm s' = size_hm s + 1"
  using assms by (simp add: set_body_shape) (simp add: shape_def)

lemma returns_shape:
  "shape s \<Longrightarrow> \<exists>s'. set_hm s k v = Inr s' \<and> shape s' \<and> loadFactor s' = loadFactor s"
  "0 < c \<Longrightarrow> \<exists>s'. resize s c = Inr s' \<and> shape s' \<and> loadFactor s' = loadFactor s"
  "shape s \<Longrightarrow> \<exists>s'. rehash s es = Inr s' \<and> shape s' \<and> loadFactor s' = loadFactor s"
proof (induct s k v and s c and s es rule: set_hm_resize_rehash.induct)
  case (1 s key val)
  show ?case
  proof (cases "over_threshold s")
    case True
    from "1.prems" have "0 < capacity s * 2" by (simp add: shape_def)
    from "1.hyps"[OF True this] obtain s1 where r: "resize s (capacity s * 2) = Inr s1"
      and s1: "shape s1" "loadFactor s1 = loadFactor s" by blast
    from set_body_keeps_shape[OF s1(1), of key val] r s1(2) True show ?thesis
      by (auto simp: set_hm_unfold)
  next
    case False
    with set_body_keeps_shape[OF "1.prems", of key val] show ?thesis
      by (auto simp: set_hm_unfold)
  qed
next
  case (2 s c)
  let ?s0 = "s\<lparr>capacity := c, size_hm := 0, buckets := replicate c []\<rparr>"
  from "2.prems" have "shape ?s0" by (simp add: shape_def)
  from "2.hyps"[OF this] show ?case by (simp add: resize.simps)
next
  case (3 s)
  then show ?case by simp
next
  case (4 s n rest)
  from "4.hyps"(1)[OF "4.prems"] obtain s1 where a: "set_hm s (fst n) (snd n) = Inr s1"
    and s1: "shape s1" "loadFactor s1 = loadFactor s" by blast
  from "4.hyps"(2)[OF a s1(1)] a s1(2) show ?case by auto
qed

section \<open>The invariant, slot by slot\<close>

lemma chain_ok_iff:
  "chain_ok s i ch \<longleftrightarrow> distinct (map fst ch) \<and> (\<forall>n\<in>set ch. hash s (fst n) = Idx i)"
  by (simp add: chain_ok_def list_all_iff)

lemma invar_iff:
  "invar s \<longleftrightarrow> shape s \<and> (\<forall>i<length (buckets s). chain_ok s i (buckets s ! i))"
  by (simp add: invar_def list_all_length nth_enumerate_eq)

lemma invar_shape: "invar s \<Longrightarrow> shape s"
  by (simp add: invar_iff)

lemma bucket_at_shape:
  "shape s \<Longrightarrow> bucket_at s (hash s k) = buckets s ! hash_spec (capacity s) k"
  by (simp add: shape_def hash_eq_spec hash_spec_less)

lemma get_shape: "shape s \<Longrightarrow> get s k = get_loop k (buckets s ! hash_spec (capacity s) k)"
  by (simp add: get_def bucket_at_shape)

lemma has_iff_get: "has s k \<longleftrightarrow> get s k \<noteq> None"
  by (simp add: has_def get_def has_loop_iff_get_loop)

lemma invar_new_map: "0 < c \<Longrightarrow> invar (new_map c lf)"
  by (simp add: invar_iff shape_def new_map_def chain_ok_iff)

lemma get_new_map: "get (new_map c lf) k = None"
  by (cases "hash (new_map c lf :: 'a hashmap) k") (simp_all add: get_def new_map_def)

section \<open>The body of set on the lookups and on the invariant\<close>

lemma set_body_get:
  assumes "shape s" and "set_body s k v = Inr s'"
  shows "get s' = (get s)(k \<mapsto> v)"
proof
  fix k'
  let ?i = "hash_spec (capacity s) k"
  from assms have s': "s' = s\<lparr>buckets := (buckets s)[?i := chain_set k v (buckets s ! ?i)],
                              size_hm := size_hm s + 1\<rparr>"
    by (simp add: set_body_shape)
  from assms(1) have i: "?i < length (buckets s)"
    by (simp add: shape_def hash_spec_less)
  from assms(1) s' have sh': "shape s'" by (simp add: shape_def)
  have c: "capacity s' = capacity s" by (simp add: s')
  have bs: "buckets s' = (buckets s)[?i := chain_set k v (buckets s ! ?i)]" by (simp add: s')
  show "get s' k' = ((get s)(k \<mapsto> v)) k'"
  proof (cases "k' = k")
    case True
    with i show ?thesis
      by (simp add: get_shape[OF sh'] c bs get_chain_set_same)
  next
    case False
    show ?thesis
    proof (cases "hash_spec (capacity s) k' = ?i")
      case True
      with i False show ?thesis
        by (simp add: get_shape[OF sh'] get_shape[OF assms(1)] c bs get_chain_set_other)
    next
      case False
      with \<open>k' \<noteq> k\<close> show ?thesis
        by (simp add: get_shape[OF sh'] get_shape[OF assms(1)] c bs)
    qed
  qed
qed

lemma chain_set_ok:
  assumes "chain_ok s i ch" and "hash s k = Idx i"
  shows "chain_ok s i (chain_set k v ch)"
proof -
  have "set (map fst (chain_set k v ch)) = insert k (fst ` set ch)"
    by (cases "k \<in> fst ` set ch") (simp_all add: keys_chain_set insert_absorb)
  then have keys: "fst ` set (chain_set k v ch) = insert k (fst ` set ch)"
    by simp
  have "distinct (map fst (chain_set k v ch))"
    using assms(1) by (cases "k \<in> fst ` set ch") (simp_all add: keys_chain_set chain_ok_iff)
  moreover have "\<forall>n\<in>set (chain_set k v ch). hash s (fst n) = Idx i"
  proof
    fix n assume "n \<in> set (chain_set k v ch)"
    then have "fst n \<in> insert k (fst ` set ch)" using keys by blast
    with assms show "hash s (fst n) = Idx i" by (auto simp: chain_ok_iff)
  qed
  ultimately show ?thesis by (simp add: chain_ok_iff)
qed

lemma chain_ok_cong: "capacity s' = capacity s \<Longrightarrow> chain_ok s' i ch = chain_ok s i ch"
  by (simp add: chain_ok_def hash_def)

lemma set_body_invar:
  assumes "invar s" and "set_body s k v = Inr s'"
  shows "invar s'"
proof -
  let ?i = "hash_spec (capacity s) k"
  from assms(1) have sh: "shape s" by (rule invar_shape)
  from sh assms(2) have s': "s' = s\<lparr>buckets := (buckets s)[?i := chain_set k v (buckets s ! ?i)],
                              size_hm := size_hm s + 1\<rparr>"
    by (simp add: set_body_shape)
  from sh have i: "?i < length (buckets s)" and h: "hash s k = Idx ?i"
    by (simp_all add: shape_def hash_spec_less hash_eq_spec)
  have c: "capacity s' = capacity s" by (simp add: s')
  have bs: "buckets s' = (buckets s)[?i := chain_set k v (buckets s ! ?i)]" by (simp add: s')
  from sh s' have sh': "shape s'" by (simp add: shape_def)
  have "chain_ok s' j (buckets s' ! j)" if j: "j < length (buckets s')" for j
  proof (cases "j = ?i")
    case True
    from assms(1) i have "chain_ok s ?i (buckets s ! ?i)" by (simp add: invar_iff)
    from chain_set_ok[OF this h, of v] True i show ?thesis
      by (simp add: chain_ok_cong[OF c] bs)
  next
    case False
    from j have "j < length (buckets s)" by (simp add: bs)
    with assms(1) have "chain_ok s j (buckets s ! j)" by (simp add: invar_iff)
    with False show ?thesis
      by (simp add: chain_ok_cong[OF c] bs)
  qed
  with sh' show ?thesis by (simp add: invar_iff)
qed

section \<open>The entries of a map in order\<close>

lemma slots_distinct:
  assumes "\<forall>i<length bs. distinct (map fst (bs ! i)) \<and>
             (\<forall>n\<in>set (bs ! i). hash s (fst n) = Idx (j + i))"
  shows "distinct (map fst (concat bs)) \<and>
         (\<forall>n\<in>set (concat bs). \<exists>i. j \<le> i \<and> hash s (fst n) = Idx i)"
  using assms
proof (induction bs arbitrary: j)
  case Nil
  then show ?case by simp
next
  case (Cons b bs)
  have b: "distinct (map fst b)" "\<forall>n\<in>set b. hash s (fst n) = Idx j"
    using Cons.prems[rule_format, of 0] by simp_all
  have "\<forall>i<length bs. distinct (map fst (bs ! i)) \<and>
          (\<forall>n\<in>set (bs ! i). hash s (fst n) = Idx (Suc j + i))"
  proof (intro allI impI)
    fix i assume "i < length bs"
    with Cons.prems[rule_format, of "Suc i"]
    show "distinct (map fst (bs ! i)) \<and> (\<forall>n\<in>set (bs ! i). hash s (fst n) = Idx (Suc j + i))"
      by simp
  qed
  from Cons.IH[OF this]
  have r: "distinct (map fst (concat bs))"
    "\<forall>n\<in>set (concat bs). \<exists>i. Suc j \<le> i \<and> hash s (fst n) = Idx i"
    by simp_all
  have "fst ` set b \<inter> fst ` set (concat bs) = {}"
  proof (rule ccontr)
    assume "fst ` set b \<inter> fst ` set (concat bs) \<noteq> {}"
    then obtain n m where n: "n \<in> set b" and m: "m \<in> set (concat bs)" and e: "fst n = fst m"
      by blast
    from b(2) n have "hash s (fst n) = Idx j" by blast
    moreover from r(2) m obtain i where "Suc j \<le> i" "hash s (fst m) = Idx i" by blast
    ultimately show False using e by simp
  qed
  with b(1) r(1) have "distinct (map fst (concat (b # bs)))"
    by simp
  moreover have "\<forall>n\<in>set (concat (b # bs)). \<exists>i. j \<le> i \<and> hash s (fst n) = Idx i"
  proof
    fix n assume "n \<in> set (concat (b # bs))"
    then consider "n \<in> set b" | "n \<in> set (concat bs)" by auto
    then show "\<exists>i. j \<le> i \<and> hash s (fst n) = Idx i"
    proof cases
      case 1
      with b(2) show ?thesis by auto
    next
      case 2
      with r(2) obtain i where "Suc j \<le> i" "hash s (fst n) = Idx i" by blast
      then show ?thesis by (intro exI[of _ i]) simp
    qed
  qed
  ultimately show ?case by blast
qed

lemma invar_distinct_entries:
  assumes "invar s"
  shows "distinct (map fst (entries s))"
proof -
  from assms have "\<forall>i<length (buckets s). distinct (map fst (buckets s ! i)) \<and>
             (\<forall>n\<in>set (buckets s ! i). hash s (fst n) = Idx (0 + i))"
    by (simp add: invar_iff chain_ok_iff)
  from slots_distinct[OF this] show ?thesis by (simp add: entries_def)
qed

lemma invar_entry_slot:
  assumes "invar s" and "n \<in> set (entries s)"
  shows "n \<in> set (buckets s ! hash_spec (capacity s) (fst n))"
proof -
  from assms(2) obtain b where "b \<in> set (buckets s)" "n \<in> set b"
    by (auto simp: entries_def)
  then obtain i where i: "i < length (buckets s)" "n \<in> set (buckets s ! i)"
    by (auto simp: in_set_conv_nth)
  with assms(1) have "hash s (fst n) = Idx i"
    by (simp add: invar_iff chain_ok_iff)
  moreover from assms(1) have "hash s (fst n) = Idx (hash_spec (capacity s) (fst n))"
    by (simp add: invar_iff shape_def hash_eq_spec)
  ultimately show ?thesis using i(2) by simp
qed

lemma slot_subset_entries:
  assumes "i < length (buckets s)"
  shows "set (buckets s ! i) \<subseteq> set (entries s)"
  using nth_mem[OF assms] by (auto simp: entries_def)

lemma map_of_entries:
  assumes "invar s"
  shows "map_of (entries s) = get s"
proof
  fix k
  let ?b = "buckets s ! hash_spec (capacity s) k"
  from assms have sh: "shape s" by (rule invar_shape)
  then have i: "hash_spec (capacity s) k < length (buckets s)"
    by (simp add: shape_def hash_spec_less)
  have g: "get s k = map_of ?b k"
    by (simp add: get_shape[OF sh] get_loop_eq_map_of)
  show "map_of (entries s) k = get s k"
  proof (cases "map_of ?b k")
    case None
    have "k \<notin> fst ` set (entries s)"
    proof
      assume "k \<in> fst ` set (entries s)"
      then obtain n where n: "n \<in> set (entries s)" "fst n = k" by auto
      from invar_entry_slot[OF assms n(1)] n(2) have "k \<in> fst ` set ?b" by auto
      with None show False by (simp add: map_of_eq_None_iff)
    qed
    then have "map_of (entries s) k = None" by (simp add: map_of_eq_None_iff)
    with None g show ?thesis by simp
  next
    case (Some v)
    then have "(k, v) \<in> set ?b" by (rule map_of_SomeD)
    with slot_subset_entries[OF i] have "(k, v) \<in> set (entries s)" by blast
    with invar_distinct_entries[OF assms] Some g show ?thesis by simp
  qed
qed

lemma map_of_rev_distinct:
  "distinct (map fst xs) \<Longrightarrow> map_of (rev xs) = map_of xs"
proof (induction xs)
  case Nil
  then show ?case by simp
next
  case (Cons x xs)
  then have "fst x \<notin> dom (map_of xs)" by (simp add: dom_map_of_conv_image_fst)
  then have "map_of [x] ++ map_of xs = (map_of xs)(fst x \<mapsto> snd x)"
    by (auto simp: map_add_def fun_eq_iff split: option.splits)
  with Cons show ?case by simp
qed

section \<open>What set, resize and the rehash loop do to the lookups\<close>

lemma get_no_chains: "buckets s = replicate n [] \<Longrightarrow> get s k = None"
  by (cases "hash s k") (simp_all add: get_def)

lemma invar_no_chains:
  "0 < capacity s \<Longrightarrow> buckets s = replicate (capacity s) [] \<Longrightarrow> invar s"
  by (simp add: invar_iff shape_def chain_ok_iff)

lemma lookups:
  "invar s \<Longrightarrow> \<exists>s'. set_hm s k v = Inr s' \<and> invar s' \<and> get s' = (get s)(k \<mapsto> v)"
  "invar s \<Longrightarrow> 0 < c \<Longrightarrow> \<exists>s'. resize s c = Inr s' \<and> invar s' \<and> get s' = get s"
  "invar s \<Longrightarrow> \<exists>s'. rehash s es = Inr s' \<and> invar s' \<and> get s' = get s ++ map_of (rev es)"
proof (induct s k v and s c and s es rule: set_hm_resize_rehash.induct)
  case (1 s key val)
  show ?case
  proof (cases "over_threshold s")
    case True
    from "1.prems" have "0 < capacity s * 2" by (simp add: invar_iff shape_def)
    from "1.hyps"[OF True "1.prems" this]
    obtain s1 where r: "resize s (capacity s * 2) = Inr s1"
      and s1: "invar s1" "get s1 = get s" by blast
    from set_body_keeps_shape[OF invar_shape[OF s1(1)], of key val]
    obtain s' where b: "set_body s1 key val = Inr s'" by blast
    from r b True have e: "set_hm s key val = Inr s'" by (simp add: set_hm_unfold)
    from set_body_get[OF invar_shape[OF s1(1)] b] s1(2)
    have g: "get s' = (get s)(key \<mapsto> val)" by (simp only:)
    from e set_body_invar[OF s1(1) b] g show ?thesis by blast
  next
    case False
    from set_body_keeps_shape[OF invar_shape[OF "1.prems"], of key val]
    obtain s' where b: "set_body s key val = Inr s'" by blast
    from b False have e: "set_hm s key val = Inr s'" by (simp add: set_hm_unfold)
    from e set_body_invar[OF "1.prems" b] set_body_get[OF invar_shape[OF "1.prems"] b]
    show ?thesis by blast
  qed
next
  case (2 s c)
  let ?s0 = "s\<lparr>capacity := c, size_hm := 0, buckets := replicate c []\<rparr>"
  from "2.prems"(2) have i0: "invar ?s0" by (simp add: invar_no_chains)
  have g0: "get ?s0 = Map.empty" by (rule ext) (simp add: get_no_chains[of _ c])
  from "2.hyps"[OF i0] obtain s' where r: "rehash ?s0 (concat (buckets s)) = Inr s'"
    and s': "invar s'" "get s' = get ?s0 ++ map_of (rev (concat (buckets s)))" by blast
  from invar_distinct_entries[OF "2.prems"(1)]
  have "map_of (rev (concat (buckets s))) = map_of (entries s)"
    by (simp add: entries_def map_of_rev_distinct)
  with s'(2) g0 map_of_entries[OF "2.prems"(1)] have g: "get s' = get s" by simp
  from r have "resize s c = Inr s'" by (simp add: resize.simps)
  with s'(1) g show ?case by blast
next
  case (3 s)
  then show ?case by simp
next
  case (4 s n rest)
  from "4.hyps"(1)[OF "4.prems"] obtain s1 where a: "set_hm s (fst n) (snd n) = Inr s1"
    and s1: "invar s1" "get s1 = (get s)(fst n \<mapsto> snd n)" by blast
  from "4.hyps"(2)[OF a s1(1)] obtain s' where r: "rehash s1 rest = Inr s'"
    and s': "invar s'" "get s' = get s1 ++ map_of (rev rest)" by blast
  have "(get s)(fst n \<mapsto> snd n) ++ map_of (rev rest) = get s ++ map_of (rev (n # rest))"
    by (rule ext) (simp add: map_add_def split: option.splits)
  with s'(2) s1(2) have g: "get s' = get s ++ map_of (rev (n # rest))" by (simp only:)
  from a r have "rehash s (n # rest) = Inr s'" by simp
  with s'(1) g show ?case by blast
qed

lemma set_all_eq_rehash: "set_all s kvs = rehash s kvs"
  by (induction kvs arbitrary: s) (simp_all split: sum.splits)

lemma set_all_new_map:
  assumes "0 < c"
  shows "\<exists>s. set_all (new_map c lf) kvs = Inr s \<and> invar s \<and> get s = map_of (rev kvs)"
proof -
  from lookups(3)[OF invar_new_map[OF assms], of lf kvs]
  obtain s where "rehash (new_map c lf) kvs = Inr s" "invar s"
    "get s = get (new_map c lf) ++ map_of (rev kvs)" by blast
  moreover have "get (new_map c lf :: 'a hashmap) = Map.empty"
    by (rule ext) (simp add: get_new_map)
  ultimately show ?thesis by (simp add: set_all_eq_rehash)
qed

section \<open>A key just set is found\<close>

lemma set_hm_by_body:
  assumes "shape s"
  shows "\<exists>s1. shape s1 \<and> set_hm s k v = set_body s1 k v"
proof (cases "over_threshold s")
  case True
  from assms have "0 < capacity s * 2" by (simp add: shape_def)
  from returns_shape(2)[OF this, of s] obtain s1
    where "resize s (capacity s * 2) = Inr s1" "shape s1" by blast
  with True show ?thesis by (auto simp: set_hm_unfold)
next
  case False
  with assms show ?thesis by (auto simp: set_hm_unfold)
qed

lemma set_hm_found:
  assumes "shape s"
  shows "\<exists>s'. set_hm s k v = Inr s' \<and> shape s' \<and> get s' k = Some v \<and>
           (k, v) \<in> set (buckets s' ! hash_spec (capacity s') k)"
proof -
  from set_hm_by_body[OF assms, of k v] obtain s1
    where s1: "shape s1" and e: "set_hm s k v = set_body s1 k v" by blast
  from set_body_keeps_shape[OF s1, of k v] obtain s'
    where b: "set_body s1 k v = Inr s'" and s': "shape s'" by blast
  from set_body_get[OF s1 b] have g: "get s' k = Some v" by simp
  then have "map_of (buckets s' ! hash_spec (capacity s') k) k = Some v"
    by (simp add: get_shape[OF s'] get_loop_eq_map_of)
  then have "(k, v) \<in> set (buckets s' ! hash_spec (capacity s') k)"
    by (rule map_of_SomeD)
  with e b s' g show ?thesis by simp
qed

section \<open>Unlinking a node\<close>

lemma remove_loop_eq:
  "remove_loop k ch = (if has_loop k ch then Some (unlinked k ch) else None)"
  by (induction ch) (simp_all add: unlinked_def)

lemma unlinked_subset: "set (unlinked k ch) \<subseteq> set ch"
  by (induction ch) (auto simp: unlinked_def)

lemma unlinked_keys:
  "distinct (map fst ch) \<Longrightarrow>
     distinct (map fst (unlinked k ch)) \<and> k \<notin> fst ` set (unlinked k ch)"
proof (induction ch)
  case Nil
  then show ?case by (simp add: unlinked_def)
next
  case (Cons n ch)
  show ?case
  proof (cases "fst n = k")
    case True
    with Cons.prems show ?thesis by (simp add: unlinked_def)
  next
    case False
    have u: "unlinked k (n # ch) = n # unlinked k ch"
      using False by (simp add: unlinked_def)
    from Cons have "distinct (map fst (unlinked k ch))" "k \<notin> fst ` set (unlinked k ch)"
      by simp_all
    moreover from Cons.prems unlinked_subset[of k ch] have "fst n \<notin> fst ` set (unlinked k ch)"
      by auto
    ultimately show ?thesis using False by (simp add: u)
  qed
qed

section \<open>remove\<close>

lemma has_slot:
  assumes "has s k"
  obtains i where "hash s k = Idx i" "i < length (buckets s)" "has_loop k (buckets s ! i)"
proof (cases "hash s k")
  case NaN
  with assms show ?thesis by (simp add: has_def)
next
  case (Idx i)
  with assms have "i < length (buckets s)" "has_loop k (buckets s ! i)"
    by (simp_all add: has_def split: if_splits)
  with Idx that show ?thesis by blast
qed

lemma remove_absent: "\<not> has s k \<Longrightarrow> remove_hm s k = (False, s)"
  by (cases "hash s k")
     (simp_all add: has_def remove_hm_def remove_loop_eq split: if_splits)

lemma remove_present:
  assumes "hash s k = Idx i" and "i < length (buckets s)" and "has_loop k (buckets s ! i)"
  shows "remove_hm s k =
           (True, s\<lparr>buckets := (buckets s)[i := unlinked k (buckets s ! i)],
                    size_hm := size_hm s - 1\<rparr>)"
  using assms by (simp add: remove_hm_def remove_loop_eq)

lemma remove_capacity: "capacity (snd (remove_hm s k)) = capacity s"
  by (simp add: remove_hm_def split: index.splits option.splits)

lemma remove_invar:
  assumes "invar s"
  shows "invar (snd (remove_hm s k)) \<and> \<not> has (snd (remove_hm s k)) k"
proof (cases "has s k")
  case False
  with assms show ?thesis by (simp add: remove_absent)
next
  case True
  then obtain i where i: "hash s k = Idx i" "i < length (buckets s)"
    "has_loop k (buckets s ! i)" by (rule has_slot)
  let ?s' = "s\<lparr>buckets := (buckets s)[i := unlinked k (buckets s ! i)],
                size_hm := size_hm s - 1\<rparr>"
  have r: "snd (remove_hm s k) = ?s'" by (simp add: remove_present[OF i])
  have c: "capacity ?s' = capacity s" by simp
  from assms have sh: "shape ?s'" by (simp add: invar_iff shape_def)
  from assms i(2) have ok: "chain_ok s i (buckets s ! i)" by (simp add: invar_iff)
  then have d: "distinct (map fst (buckets s ! i))" by (simp add: chain_ok_iff)
  have u: "chain_ok s i (unlinked k (buckets s ! i))"
    using ok unlinked_keys[OF d, of k] unlinked_subset[of k "buckets s ! i"]
    by (auto simp: chain_ok_iff)
  have "chain_ok ?s' j (buckets ?s' ! j)" if "j < length (buckets ?s')" for j
  proof (cases "j = i")
    case True
    with u i(2) show ?thesis by (simp add: chain_ok_cong[OF c])
  next
    case False
    from that assms have "chain_ok s j (buckets s ! j)" by (simp add: invar_iff)
    with False show ?thesis by (simp add: chain_ok_cong[OF c])
  qed
  with sh have inv': "invar ?s'" by (simp only: invar_iff) blast
  have "hash ?s' k = Idx i" using i(1) by (simp add: hash_def)
  with i(2) unlinked_keys[OF d, of k] have "\<not> has ?s' k"
    by (simp add: has_def has_loop_iff_keys)
  with inv' r show ?thesis by simp
qed

section \<open>Every reachable state satisfies the invariant\<close>

lemma clear_invar: "invar s \<Longrightarrow> invar (clear s)"
  by (rule invar_no_chains) (simp_all add: clear_def invar_iff shape_def)

lemma reachable_invar: "reachable s \<Longrightarrow> invar s"
proof (induction rule: reachable.induct)
  case (constructed initialSize lf)
  then show ?case by (rule invar_new_map)
next
  case (after_set s key val s')
  with lookups(1)[of s key val] show ?case by auto
next
  case (after_remove s key)
  then show ?case by (simp add: remove_invar)
next
  case (after_clear s)
  then show ?case by (simp add: clear_invar)
next
  case (after_resize s c s')
  with lookups(2)[of s c] show ?case by auto
qed

section \<open>The double quotient\<close>

text \<open>The rounded significand is within a half of the scaled quotient.\<close>

lemma round_half_even_nearest:
  assumes "0 < d"
  shows "\<bar>rat_of_int (round_half_even n d) - of_int n / of_int d\<bar> \<le> 1 / 2"
proof -
  define f r where "f = n div d" and "r = n mod d"
  have n: "n = f * d + r" by (simp add: f_def r_def)
  from assms have r: "0 \<le> r" "r < d" by (simp_all add: r_def)
  from assms have q: "rat_of_int n / of_int d = of_int f + of_int r / of_int d"
    by (simp add: n add_divide_distrib)
  from assms r have frac: "0 \<le> rat_of_int r / of_int d" "rat_of_int r / of_int d < 1"
    by simp_all
  show ?thesis
  proof (cases "2 * r < d \<or> (2 * r = d \<and> even f)")
    case True
    then have e: "round_half_even n d = f"
      by (simp add: round_half_even_def f_def r_def Let_def)
    from True have "2 * r \<le> d" by auto
    then have "2 * rat_of_int r \<le> of_int d" by (metis of_int_le_iff of_int_mult of_int_numeral)
    with assms have "rat_of_int r / of_int d \<le> 1 / 2" by (simp add: pos_divide_le_eq)
    with frac show ?thesis by (simp add: e q)
  next
    case False
    then have e: "round_half_even n d = f + 1"
      by (simp add: round_half_even_def f_def r_def Let_def)
    from False have "d \<le> 2 * r" by auto
    then have "rat_of_int d \<le> 2 * of_int r" by (metis of_int_le_iff of_int_mult of_int_numeral)
    with assms have "1 / 2 \<le> rat_of_int r / of_int d" by (simp add: pos_le_divide_eq)
    with frac show ?thesis by (simp add: e q)
  qed
qed

text \<open>The binade brackets the quotient: \<open>2^e \<le> a / b < 2^(e + 1)\<close>, cross-multiplied.\<close>

lemma binade_brackets:
  assumes "0 < a" and "0 < b"
  shows "b * 2 ^ nat (binade a b) \<le> a * 2 ^ nat (- binade a b)"
    and "a * 2 ^ nat (- (binade a b + 1)) < b * 2 ^ nat (binade a b + 1)"
proof -
  define la lb d where "la = bitlen a" and "lb = bitlen b" and "d = la - lb"
  from bitlen_bounds[OF assms(1)] have a: "2 ^ nat (la - 1) \<le> a" "a < 2 ^ nat la"
    by (simp_all add: la_def)
  from bitlen_bounds[OF assms(2)] have b: "2 ^ nat (lb - 1) \<le> b" "b < 2 ^ nat lb"
    by (simp_all add: lb_def)
  from assms have pos: "0 < la" "0 < lb" by (simp_all add: la_def lb_def bitlen_alt_def)
  have e: "binade a b = (if b * 2 ^ nat d \<le> a * 2 ^ nat (- d) then d else d - 1)"
    by (simp add: binade_def Let_def la_def lb_def d_def)
  have split: "(2::int) ^ nat (x + y) = 2 ^ nat x * 2 ^ nat y" if "0 \<le> x" "0 \<le> y" for x y
    using that by (simp add: nat_add_distrib power_add)
  show "b * 2 ^ nat (binade a b) \<le> a * 2 ^ nat (- binade a b)"
  proof (cases "b * 2 ^ nat d \<le> a * 2 ^ nat (- d)")
    case True
    with e show ?thesis by simp
  next
    case False
    with e have eb: "binade a b = d - 1" by simp
    show ?thesis
    proof (cases "1 \<le> d")
      case True
      from b(2) have "b * 2 ^ nat (d - 1) \<le> 2 ^ nat lb * 2 ^ nat (d - 1)"
        by (simp add: mult_right_mono)
      also from pos True have "\<dots> = 2 ^ nat (lb + (d - 1))" by (simp add: split)
      also have "lb + (d - 1) = la - 1" by (simp add: d_def)
      finally have "b * 2 ^ nat (d - 1) \<le> a" using a(1) by simp
      with True show ?thesis by (simp add: eb)
    next
      case False
      from pos False have "(2::int) ^ nat ((la - 1) + (1 - d)) = 2 ^ nat (la - 1) * 2 ^ nat (1 - d)"
        by (intro split) simp_all
      moreover have "(la - 1) + (1 - d) = lb" by (simp add: d_def)
      ultimately have "(2::int) ^ nat lb = 2 ^ nat (la - 1) * 2 ^ nat (1 - d)" by simp
      also from a(1) have "\<dots> \<le> a * 2 ^ nat (1 - d)" by (simp add: mult_right_mono)
      finally have "b \<le> a * 2 ^ nat (1 - d)" using b(2) by simp
      with False show ?thesis by (simp add: eb)
    qed
  qed
  show "a * 2 ^ nat (- (binade a b + 1)) < b * 2 ^ nat (binade a b + 1)"
  proof (cases "b * 2 ^ nat d \<le> a * 2 ^ nat (- d)")
    case False
    with e show ?thesis by simp
  next
    case True
    with e have eb: "binade a b = d" by simp
    show ?thesis
    proof (cases "0 \<le> d")
      case True
      from pos True have "(2::int) ^ nat ((lb - 1) + (d + 1)) = 2 ^ nat (lb - 1) * 2 ^ nat (d + 1)"
        by (intro split) simp_all
      moreover have "(lb - 1) + (d + 1) = la" by (simp add: d_def)
      ultimately have "(2::int) ^ nat la = 2 ^ nat (lb - 1) * 2 ^ nat (d + 1)" by simp
      also from b(1) have "\<dots> \<le> b * 2 ^ nat (d + 1)" by (simp add: mult_right_mono)
      finally have "a < b * 2 ^ nat (d + 1)" using a(2) by simp
      with True show ?thesis by (simp add: eb)
    next
      case False
      from a(2) have "a * 2 ^ nat (- (d + 1)) < 2 ^ nat la * 2 ^ nat (- (d + 1))"
        by (simp add: mult_strict_right_mono)
      also from pos False have "\<dots> = 2 ^ nat (la + (- (d + 1)))" by (simp add: split)
      also have "la + (- (d + 1)) = lb - 1" by (simp add: d_def)
      finally have "a * 2 ^ nat (- (d + 1)) < b" using b(1) by simp
      with False show ?thesis by (simp add: eb)
    qed
  qed
qed

text \<open>Some quotients as doubles: \<open>1/3\<close>, \<open>1/10\<close> and \<open>2/3\<close> rounded, \<open>12/16\<close> exact,
  two ties. And the test of \<^verbatim>\<open>set\<close> at size 1 and capacity 3 against the load factor
  \<^verbatim>\<open>0.3333333333333333\<close>, the double below \<open>1/3\<close>: the quotient is that double, which
  does not exceed the load factor.\<close>

lemma js_divide_examples:
  "js_divide 1 3 = 6004799503160661 / 2 ^ 54"
  "js_divide 1 10 = 7205759403792794 / 2 ^ 56"
  "js_divide 2 3 = 6004799503160661 / 2 ^ 53"
  "js_divide 12 16 = 3 / 4"
  "js_divide 9007199254740993 2 = 4503599627370496"
  "js_divide 9007199254740995 2 = 4503599627370498"
  by code_simp+

lemma threshold_in_double_precision:
  "(6004799503160661 / 2 ^ 54 :: rat) < 1 / 3"
  "\<not> over_threshold \<lparr>loadFactor = 6004799503160661 / 2 ^ 54, capacity = 3,
                      buckets = [[], [], []] :: nat chain list, size_hm = 1\<rparr>"
  by code_simp+

section \<open>A run of insertions below the threshold\<close>

lemma rehash_below_threshold:
  assumes "shape s"
    and "\<forall>j<length es. \<not> loadFactor s < js_divide (size_hm s + int j) (capacity s)"
  shows "\<exists>s'. rehash s es = Inr s' \<and> shape s' \<and> capacity s' = capacity s \<and>
           loadFactor s' = loadFactor s \<and> size_hm s' = size_hm s + int (length es) \<and>
           length (entries s') \<le> length (entries s) + length es"
  using assms
proof (induction es arbitrary: s)
  case Nil
  then show ?case by simp
next
  case (Cons n es)
  from Cons.prems(2)[rule_format, of 0]
  have "\<not> loadFactor s < js_divide (size_hm s) (capacity s)" by simp
  with Cons.prems(1) have "\<not> over_threshold s"
    by (simp add: over_threshold_def shape_def)
  then have e: "set_hm s (fst n) (snd n) = set_body s (fst n) (snd n)"
    by (simp add: set_hm_unfold)
  from set_body_keeps_shape[OF Cons.prems(1), of "fst n" "snd n"] obtain s1
    where b: "set_body s (fst n) (snd n) = Inr s1" and s1: "shape s1"
      "capacity s1 = capacity s" "loadFactor s1 = loadFactor s" "size_hm s1 = size_hm s + 1"
    by blast
  have "\<forall>j<length es. \<not> loadFactor s1 < js_divide (size_hm s1 + int j) (capacity s1)"
  proof (intro allI impI)
    fix j assume "j < length es"
    then have "Suc j < length (n # es)" by simp
    with Cons.prems(2)
    have neg: "\<not> loadFactor s < js_divide (size_hm s + int (Suc j)) (capacity s)" by blast
    have eq: "size_hm s1 + int j = size_hm s + int (Suc j)" by (simp add: s1)
    from neg show "\<not> loadFactor s1 < js_divide (size_hm s1 + int j) (capacity s1)"
      unfolding eq s1(2,3) .
  qed
  from Cons.IH[OF s1(1) this] obtain s' where s': "rehash s1 es = Inr s'" "shape s'"
    "capacity s' = capacity s1" "loadFactor s' = loadFactor s1"
    "size_hm s' = size_hm s1 + int (length es)"
    "length (entries s') \<le> length (entries s1) + length es" by blast
  from s'(6) set_body_entries_le[OF b]
  have "length (entries s') \<le> length (entries s) + length (n # es)" by simp
  with e b s1 s'(1-5) show ?case by simp
qed

text \<open>The quotients met while 13 entries go into 16 or 32 slots, against 0.75.\<close>

lemma below_three_quarters:
  assumes "j < 13"
  shows "\<not> 3 / 4 < js_divide (int j) 16" and "\<not> 3 / 4 < js_divide (int j) 32"
proof -
  have "\<forall>n\<in>set [0..<13]. \<not> 3 / 4 < js_divide (int n) 16 \<and> \<not> 3 / 4 < js_divide (int n) 32"
    by code_simp
  moreover from assms have "j \<in> set [0..<13]" by simp
  ultimately show "\<not> 3 / 4 < js_divide (int j) 16" and "\<not> 3 / 4 < js_divide (int j) 32"
    by blast+
qed

lemma thirteen_of_sixteen: "3 / 4 < js_divide 13 16"
  by code_simp

lemma get_of_distinct:
  assumes "get s = map_of (rev kvs)" and "distinct (map fst kvs)" and "(k, v) \<in> set kvs"
  shows "get s k = Some v"
  using assms by (simp add: map_of_rev_distinct)

lemma fresh_prefix:
  assumes "n \<le> 13"
  shows "\<exists>t. set_all (new_map 16 (3 / 4)) (take n kvs) = Inr t \<and> shape t \<and> capacity t = 16 \<and>
           loadFactor t = 3 / 4 \<and> size_hm t = int (length (take n kvs)) \<and>
           length (entries t) \<le> length (take n kvs)"
proof -
  let ?m = "new_map 16 (3 / 4) :: 'a hashmap"
  have sh: "shape ?m" by (simp add: shape_def new_map_def)
  have "\<forall>j<length (take n kvs). \<not> loadFactor ?m < js_divide (size_hm ?m + int j) (capacity ?m)"
  proof (intro allI impI)
    fix j assume "j < length (take n kvs)"
    with assms have "j < 13" by simp
    from below_three_quarters(1)[OF this]
    show "\<not> loadFactor ?m < js_divide (size_hm ?m + int j) (capacity ?m)"
      by (simp add: new_map_def)
  qed
  from rehash_below_threshold[OF sh this] show ?thesis
    by (simp add: set_all_eq_rehash) (simp add: new_map_def entries_def)
qed

lemma set_all_reachable: "reachable s \<Longrightarrow> set_all s kvs = Inr s' \<Longrightarrow> reachable s'"
proof (induction kvs arbitrary: s)
  case Nil
  then show ?case by simp
next
  case (Cons kv kvs)
  from Cons.prems(2) obtain s1 where a: "set_hm s (fst kv) (snd kv) = Inr s1"
    and b: "set_all s1 kvs = Inr s'"
    by (auto split: sum.splits)
  from Cons.prems(1) a have "reachable s1" by (rule after_set)
  from Cons.IH[OF this b] show ?case .
qed

section \<open>A resize never lowers the capacity\<close>

lemma set_body_keeps_capacity:
  assumes "set_body s k v = Inr s'"
  shows "capacity s' = capacity s \<and> loadFactor s' = loadFactor s"
  using assms by (cases rule: set_body_cases) simp_all

lemma capacity_grows:
  "set_hm s k v = Inr s' \<Longrightarrow> capacity s \<le> capacity s' \<and> loadFactor s' = loadFactor s"
  "resize s c = Inr s' \<Longrightarrow> c \<le> capacity s' \<and> loadFactor s' = loadFactor s"
  "rehash s es = Inr s' \<Longrightarrow> capacity s \<le> capacity s' \<and> loadFactor s' = loadFactor s"
proof (induct s k v and s c and s es arbitrary: s' and s' and s'
    rule: set_hm_resize_rehash.induct)
  case (1 s key val)
  show ?case
  proof (cases "over_threshold s")
    case True
    with "1.prems" obtain s1 where r: "resize s (capacity s * 2) = Inr s1"
      and b: "set_body s1 key val = Inr s'"
      by (auto simp: set_hm_unfold split: sum.splits)
    from "1.hyps"[OF True r] set_body_keeps_capacity[OF b] show ?thesis by simp
  next
    case False
    with "1.prems" have "set_body s key val = Inr s'" by (simp add: set_hm_unfold)
    from set_body_keeps_capacity[OF this] show ?thesis by simp
  qed
next
  case (2 s c)
  from "2.prems"
  have "rehash (s\<lparr>capacity := c, size_hm := 0, buckets := replicate c []\<rparr>)
          (concat (buckets s)) = Inr s'"
    by (simp add: resize.simps)
  from "2.hyps"[OF this] show ?case by simp
next
  case (3 s)
  then show ?case by simp
next
  case (4 s n rest)
  from "4.prems" obtain s1 where a: "set_hm s (fst n) (snd n) = Inr s1"
    and b: "rehash s1 rest = Inr s'"
    by (auto split: sum.splits)
  from "4.hyps"(1)[OF a] "4.hyps"(2)[OF a b] show ?case by simp
qed

lemma invar_same_entries:
  assumes "invar s" and "invar s'" and "get s' = get s"
  shows "set (entries s') = set (entries s)"
proof -
  from assms have "map_of (entries s') = map_of (entries s)"
    by (simp add: map_of_entries)
  with invar_distinct_entries[OF assms(2)] invar_distinct_entries[OF assms(1)]
  show ?thesis by (simp add: map_of_inject_set)
qed

section \<open>The claims\<close>

subsection \<open>C1 to C4: the size and the number of entries\<close>

text \<open>
  C1 fails on the code. On a freshly constructed map (capacity 16, load factor 0.75),
  \<^verbatim>\<open>set("a", 1)\<close> stores the key with size 1; the key then being present,
  \<^verbatim>\<open>set("a", 2)\<close> overwrites the value in place and leaves size 2: line 44 increments
  the size before the chain is searched.
\<close>

theorem set_of_present_key_increments_size:
  "set_hm (new_map 16 (3 / 4)) [97] (1 :: nat) =
     Inr \<lparr>loadFactor = 3 / 4, capacity = 16, buckets = [[], [([97], 1)]] @ replicate 14 [],
          size_hm = 1\<rparr> \<and>
   has \<lparr>loadFactor = 3 / 4, capacity = 16,
        buckets = [[], [([97], 1 :: nat)]] @ replicate 14 [], size_hm = 1\<rparr> [97] \<and>
   set_hm \<lparr>loadFactor = 3 / 4, capacity = 16,
           buckets = [[], [([97], 1 :: nat)]] @ replicate 14 [], size_hm = 1\<rparr> [97] 2 =
     Inr \<lparr>loadFactor = 3 / 4, capacity = 16, buckets = [[], [([97], 2)]] @ replicate 14 [],
          size_hm = 2\<rparr>"
  by code_simp

text \<open>
  C2 fails on the code. The state after \<^verbatim>\<open>set("a", 1); set("a", 2)\<close> on a freshly
  constructed map is reachable, holds the single entry \<open>("a", 2)\<close>, and has size 2, which
  is what \<^verbatim>\<open>length()\<close> returns.
\<close>

theorem size_exceeds_entry_count:
  "reachable \<lparr>loadFactor = 3 / 4, capacity = 16,
              buckets = [[], [([97], 2 :: nat)]] @ replicate 14 [], size_hm = 2\<rparr> \<and>
   entries \<lparr>loadFactor = 3 / 4, capacity = 16,
            buckets = [[], [([97], 2 :: nat)]] @ replicate 14 [], size_hm = 2\<rparr> = [([97], 2)] \<and>
   length_hm \<lparr>loadFactor = 3 / 4, capacity = 16,
              buckets = [[], [([97], 2 :: nat)]] @ replicate 14 [], size_hm = 2\<rparr> = 2"
proof -
  let ?s = "\<lparr>loadFactor = 3 / 4, capacity = 16,
             buckets = [[], [([97], 2 :: nat)]] @ replicate 14 [], size_hm = 2\<rparr>"
  have "set_all (new_map 16 (3 / 4)) [([97], 1), ([97], 2)] = Inr ?s"
    by code_simp
  moreover have "reachable (new_map 16 (3 / 4) :: nat hashmap)"
    by (rule constructed) simp
  ultimately have "reachable ?s" by (rule set_all_reachable[rotated])
  moreover have "entries ?s = [([97], 2)]" by code_simp
  moreover have "length_hm ?s = 2" by code_simp
  ultimately show ?thesis by (intro conjI)
qed

text \<open>
  C3 fails on the code in its second half. After \<^verbatim>\<open>set("a", 1); set("b", 2); set("a", 3)\<close>
  on a freshly constructed map, \<^verbatim>\<open>get\<close> returns the last value set for each key, and
  \<^verbatim>\<open>length()\<close> returns 3, the number of calls, where 2 distinct keys were set.
\<close>

theorem length_counts_calls:
  "set_all (new_map 16 (3 / 4)) [([97], 1 :: nat), ([98], 2), ([97], 3)] =
     Inr \<lparr>loadFactor = 3 / 4, capacity = 16,
          buckets = [[], [([97], 3)], [([98], 2)]] @ replicate 13 [], size_hm = 3\<rparr> \<and>
   get \<lparr>loadFactor = 3 / 4, capacity = 16,
        buckets = [[], [([97], 3 :: nat)], [([98], 2)]] @ replicate 13 [], size_hm = 3\<rparr> [97]
     = Some 3 \<and>
   get \<lparr>loadFactor = 3 / 4, capacity = 16,
        buckets = [[], [([97], 3 :: nat)], [([98], 2)]] @ replicate 13 [], size_hm = 3\<rparr> [98]
     = Some 2 \<and>
   length_hm \<lparr>loadFactor = 3 / 4, capacity = 16,
        buckets = [[], [([97], 3 :: nat)], [([98], 2)]] @ replicate 13 [], size_hm = 3\<rparr> = 3 \<and>
   length (remdups (map fst [([97], 1 :: nat), ([98], 2), ([97 :: 16 word], 3)])) = 2"
  by code_simp

text \<open>
  C4 fails on the code for \<^verbatim>\<open>length\<close>. The map after \<^verbatim>\<open>set("a", 1); set("a", 2)\<close> has
  length 2; \<^verbatim>\<open>resize(32)\<close>, which re-inserts its one entry from size 0, leaves \<^verbatim>\<open>get\<close>
  and \<^verbatim>\<open>has\<close> as they were and length 1. And the same three calls
  \<^verbatim>\<open>set("a", 1); set("a", 2); set("a", 3)\<close> end with length 3 on a map constructed with
  capacity 16, where no resize is triggered, and with length 2 on a map constructed with
  capacity 1, where the second and the third call resize.
\<close>

theorem resize_changes_length:
  "length_hm \<lparr>loadFactor = 3 / 4, capacity = 16,
              buckets = [[], [([97], 2 :: nat)]] @ replicate 14 [], size_hm = 2\<rparr> = 2 \<and>
   resize \<lparr>loadFactor = 3 / 4, capacity = 16,
           buckets = [[], [([97], 2 :: nat)]] @ replicate 14 [], size_hm = 2\<rparr> 32 =
     Inr \<lparr>loadFactor = 3 / 4, capacity = 32, buckets = [[], [([97], 2)]] @ replicate 30 [],
          size_hm = 1\<rparr> \<and>
   length_hm \<lparr>loadFactor = 3 / 4, capacity = 32,
              buckets = [[], [([97], 2 :: nat)]] @ replicate 30 [], size_hm = 1\<rparr> = 1 \<and>
   get \<lparr>loadFactor = 3 / 4, capacity = 32,
        buckets = [[], [([97], 2 :: nat)]] @ replicate 30 [], size_hm = 1\<rparr> [97] = Some 2 \<and>
   set_all (new_map 16 (3 / 4)) [([97], 1 :: nat), ([97], 2), ([97], 3)] =
     Inr \<lparr>loadFactor = 3 / 4, capacity = 16, buckets = [[], [([97], 3)]] @ replicate 14 [],
          size_hm = 3\<rparr> \<and>
   set_all (new_map 1 (3 / 4)) [([97], 1 :: nat), ([97], 2), ([97], 3)] =
     Inr \<lparr>loadFactor = 3 / 4, capacity = 4, buckets = [[], [([97], 3)], [], []],
          size_hm = 2\<rparr>"
  by code_simp

subsection \<open>C5: the resize threshold\<close>

text \<open>
  C5 as stated fails: after the insertion of the 13 keys "a" to "m" (code units 97 to
  109) into a map constructed with capacity 16 and load factor 0.75, the capacity is
  still 16; the 13th insertion has not resized.
\<close>

theorem thirteenth_insertion_does_not_resize: "set_all (new_map 16 (3 / 4))
     [([97], 1 :: nat), ([98], 2), ([99], 3), ([100], 4), ([101], 5), ([102], 6), ([103], 7),
      ([104], 8), ([105], 9), ([106], 10), ([107], 11), ([108], 12), ([109], 13)] =
   Inr \<lparr>loadFactor = 3 / 4, capacity = 16,
        buckets = [[], [([97], 1)], [([98], 2)], [([99], 3)], [([100], 4)], [([101], 5)],
                   [([102], 6)], [([103], 7)], [([104], 8)], [([105], 9)], [([106], 10)],
                   [([107], 11)], [([108], 12)], [([109], 13)], [], []],
        size_hm = 13\<rparr>"
  by code_simp

text \<open>
  C5, as the code has it. Thirteen insertions of distinct keys (single characters or
  longer) into a map constructed with capacity 16 and load factor 0.75 trigger no resize:
  the test precedes the insertion and is strict, so the map before each of them, of size
  at most 12, is not over the threshold, and the capacity is 16 after the 13th; \<^verbatim>\<open>get\<close>
  returns the stored value for all 13 keys. The map is then over the threshold, and it is
  the insertion of a 14th distinct key that resizes, once, to capacity 32, after which
  \<^verbatim>\<open>get\<close> returns the stored value for all 14 keys.
\<close>

theorem resize_at_fourteenth_insertion:
  assumes "length kvs = 13" and "distinct (map fst kvs)" and "k' \<notin> fst ` set kvs"
  shows "\<exists>s s'. set_all (new_map 16 (3 / 4)) kvs = Inr s \<and>
           (\<forall>n<13. \<exists>t. set_all (new_map 16 (3 / 4)) (take n kvs) = Inr t \<and>
                        capacity t = 16 \<and> \<not> over_threshold t) \<and>
           capacity s = 16 \<and>
           (\<forall>(k, v)\<in>set kvs. get s k = Some v) \<and>
           over_threshold s \<and>
           set_hm s k' v' = Inr s' \<and>
           capacity s' = 32 \<and>
           (\<forall>(k, v)\<in>set kvs. get s' k = Some v) \<and>
           get s' k' = Some v'"
proof -
  let ?m = "new_map 16 (3 / 4) :: 'a hashmap"
  from fresh_prefix[of 13 kvs] assms(1) obtain s where s: "set_all ?m kvs = Inr s"
    "shape s" "capacity s = 16" "loadFactor s = 3 / 4" "size_hm s = 13"
    "length (entries s) \<le> 13" by auto
  from set_all_new_map[of 16 "3 / 4" kvs] s(1) have inv: "invar s"
    and g: "get s = map_of (rev kvs)" by auto
  have before: "\<exists>t. set_all ?m (take n kvs) = Inr t \<and> capacity t = 16 \<and> \<not> over_threshold t"
    if "n < 13" for n
  proof -
    from fresh_prefix[of n kvs] that assms(1) obtain t where t: "set_all ?m (take n kvs) = Inr t"
      "shape t" "capacity t = 16" "loadFactor t = 3 / 4" "size_hm t = int n" by auto
    from t(3-5) below_three_quarters(1)[OF that] have "\<not> over_threshold t"
      by (simp add: over_threshold_def)
    with t(1,3) show ?thesis by blast
  qed
  have over: "over_threshold s"
    using s(3-5) thirteen_of_sixteen by (simp add: over_threshold_def)
  let ?s0 = "s\<lparr>capacity := 32, size_hm := 0, buckets := replicate 32 []\<rparr>"
  have sh0: "shape ?s0" by (simp add: shape_def)
  from s(6) have "length (concat (buckets s)) \<le> 13" by (simp add: entries_def)
  have "\<forall>j<length (concat (buckets s)).
      \<not> loadFactor ?s0 < js_divide (size_hm ?s0 + int j) (capacity ?s0)"
  proof (intro allI impI)
    fix j assume "j < length (concat (buckets s))"
    with \<open>length (concat (buckets s)) \<le> 13\<close> have "j < 13" by simp
    from below_three_quarters(2)[OF this] s(4)
    show "\<not> loadFactor ?s0 < js_divide (size_hm ?s0 + int j) (capacity ?s0)"
      by simp
  qed
  from rehash_below_threshold[OF sh0 this] obtain s1
    where s1: "rehash ?s0 (concat (buckets s)) = Inr s1" "shape s1" "capacity s1 = 32"
    by auto
  from s1(1) s(3) have r: "resize s (capacity s * 2) = Inr s1"
    by (simp add: resize.simps)
  from set_body_keeps_shape[OF s1(2), of k' v'] s1(3) obtain s'
    where b: "set_body s1 k' v' = Inr s'" and c': "capacity s' = 32" by auto
  from over r b have e: "set_hm s k' v' = Inr s'" by (simp add: set_hm_unfold)
  from lookups(1)[OF inv, of k' v'] e have g': "get s' = (get s)(k' \<mapsto> v')" by simp
  have old: "get s k = Some v" if "(k, v) \<in> set kvs" for k v
    using g assms(2) that by (rule get_of_distinct)
  have new: "get s' k = Some v" if "(k, v) \<in> set kvs" for k v
  proof -
    from that assms(3) have "k \<noteq> k'" by force
    with old[OF that] show ?thesis by (simp add: g')
  qed
  have "get s' k' = Some v'" by (simp add: g')
  with s(1,3) before over e c' old new show ?thesis by blast
qed

theorem resize_at_fourteenth_insertion_witness:
  "length ([([97], 1), ([98], 2), ([99], 3), ([100], 4), ([101], 5), ([102], 6),
           ([103], 7), ([104], 8), ([105], 9), ([106], 10), ([107], 11), ([108], 12),
           ([109], 13)] :: (key \<times> nat) list) = 13 \<and>
   distinct (map fst ([([97], 1), ([98], 2), ([99], 3), ([100], 4), ([101], 5), ([102], 6),
           ([103], 7), ([104], 8), ([105], 9), ([106], 10), ([107], 11), ([108], 12),
           ([109], 13)] :: (key \<times> nat) list)) \<and>
   [110] \<notin> fst ` set ([([97], 1), ([98], 2), ([99], 3), ([100], 4), ([101], 5), ([102], 6),
           ([103], 7), ([104], 8), ([105], 9), ([106], 10), ([107], 11), ([108], 12),
           ([109], 13)] :: (key \<times> nat) list) \<and>
   (\<exists>s s'. set_all (new_map 16 (3 / 4))
             ([([97], 1), ([98], 2), ([99], 3), ([100], 4), ([101], 5), ([102], 6),
           ([103], 7), ([104], 8), ([105], 9), ([106], 10), ([107], 11), ([108], 12),
           ([109], 13)] :: (key \<times> nat) list) = Inr s \<and>
           capacity s = 16 \<and> get s [97] = Some 1 \<and> get s [109] = Some 13 \<and>
           over_threshold s \<and>
           set_hm s [110] 14 = Inr s' \<and>
           capacity s' = 32 \<and> get s' [97] = Some 1 \<and> get s' [109] = Some 13 \<and>
           get s' [110] = Some 14)"
proof -
  let ?kvs = "[([97], 1), ([98], 2), ([99], 3), ([100], 4), ([101], 5), ([102], 6),
           ([103], 7), ([104], 8), ([105], 9), ([106], 10), ([107], 11), ([108], 12),
           ([109], 13)] :: (key \<times> nat) list"
  have h1: "length ?kvs = 13" by simp
  have h2: "distinct (map fst ?kvs)" by simp
  have h3: "[110] \<notin> fst ` set ?kvs" by simp
  from resize_at_fourteenth_insertion [OF h1 h2 h3, of 14] obtain s s'
    where "set_all (new_map 16 (3 / 4)) ?kvs = Inr s" "capacity s = 16"
      "\<forall>(k, v)\<in>set ?kvs. get s k = Some v" "over_threshold s"
      "set_hm s [110] 14 = Inr s'" "capacity s' = 32"
      "\<forall>(k, v)\<in>set ?kvs. get s' k = Some v" "get s' [110] = Some 14"
    by blast
  then have "set_all (new_map 16 (3 / 4)) ?kvs = Inr s \<and>
           capacity s = 16 \<and> get s [97] = Some 1 \<and> get s [109] = Some 13 \<and>
           over_threshold s \<and>
           set_hm s [110] 14 = Inr s' \<and>
           capacity s' = 32 \<and> get s' [97] = Some 1 \<and> get s' [109] = Some 13 \<and>
           get s' [110] = Some 14"
    by simp
  then have "\<exists>s s'. set_all (new_map 16 (3 / 4)) ?kvs = Inr s \<and>
           capacity s = 16 \<and> get s [97] = Some 1 \<and> get s [109] = Some 13 \<and>
           over_threshold s \<and>
           set_hm s [110] 14 = Inr s' \<and>
           capacity s' = 32 \<and> get s' [97] = Some 1 \<and> get s' [109] = Some 13 \<and>
           get s' [110] = Some 14"
    by blast
  with h1 h2 h3 show ?thesis by (intro conjI)
qed

subsection \<open>C6: setting twice\<close>

text \<open>
  C6 as stated fails: on a map constructed with capacity 1 and load factor 0.75, one
  \<^verbatim>\<open>set("a", 1)\<close> leaves capacity 1, and a second one finds the map over its threshold
  and resizes, leaving capacity 2 and the entry in another slot.
\<close>

theorem second_set_resizes:
  "set_all (new_map 1 (3 / 4)) [([97], 1 :: nat)] =
     Inr \<lparr>loadFactor = 3 / 4, capacity = 1, buckets = [[([97], 1)]], size_hm = 1\<rparr> \<and>
   set_all (new_map 1 (3 / 4)) [([97], 1 :: nat), ([97], 1)] =
     Inr \<lparr>loadFactor = 3 / 4, capacity = 2, buckets = [[], [([97], 1)]], size_hm = 2\<rparr>"
  by code_simp

text \<open>
  C6, as the code has it by design. On a map that satisfies the data model's invariant, a
  second \<^verbatim>\<open>set(k, v)\<close> right after the first returns and leaves the result of
  \<^verbatim>\<open>get\<close> and of \<^verbatim>\<open>has\<close> for every key, the load factor and the set of entries as
  they were after the first, every entry in the chain of its slot. When the first call has
  not left the map over its load-factor threshold (the test of line 37, in double
  precision), the second call leaves capacity and bucket contents identical as well. When
  it has, the second call resizes first, re-inserting the entries into a new bucket array,
  and the capacity is then at least twice what it was. It can be more: a re-insertion can
  find the new map over the threshold again and resize in turn, as on the map constructed
  with capacity 1 and load factor 1/128 of the witness, where the capacity goes from 2
  to 8. (Nothing is said about the size.)
\<close>

theorem set_twice_keeps_lookups:
  assumes "invar s" and "set_hm s k v = Inr s1"
  shows "\<exists>s2. set_hm s1 k v = Inr s2 \<and>
           get s2 = get s1 \<and>
           has s2 = has s1 \<and>
           loadFactor s2 = loadFactor s1 \<and>
           invar s2 \<and>
           set (entries s2) = set (entries s1) \<and>
           (\<not> over_threshold s1 \<longrightarrow>
              capacity s2 = capacity s1 \<and> buckets s2 = buckets s1) \<and>
           (over_threshold s1 \<longrightarrow>
              2 * capacity s1 \<le> capacity s2 \<and>
              (\<exists>r. resize s1 (capacity s1 * 2) = Inr r \<and> set_body r k v = Inr s2))"
proof -
  from lookups(1)[OF assms(1), of k v] assms(2)
  have inv1: "invar s1" and g1: "get s1 = (get s)(k \<mapsto> v)" by auto
  from g1 have f: "get s1 k = Some v" by simp
  from lookups(1)[OF inv1, of k v] obtain s2 where e: "set_hm s1 k v = Inr s2"
    and inv2: "invar s2" and g2: "get s2 = (get s1)(k \<mapsto> v)" by blast
  from f have "(get s1)(k \<mapsto> v) = get s1" by (rule map_upd_triv)
  with g2 have g: "get s2 = get s1" by (simp only:)
  have h: "has s2 = has s1" using g by (intro ext) (simp add: has_iff_get)
  from capacity_grows(1)[OF e] have lf: "loadFactor s2 = loadFactor s1" by simp
  from inv1 inv2 g have en: "set (entries s2) = set (entries s1)"
    by (rule invar_same_entries)
  have stay: "capacity s2 = capacity s1 \<and> buckets s2 = buckets s1"
    if "\<not> over_threshold s1"
  proof -
    let ?i = "hash_spec (capacity s1) k"
    from inv1 have sh: "shape s1" by (rule invar_shape)
    from f have "get_loop k (buckets s1 ! ?i) = Some v" by (simp add: get_shape[OF sh])
    then have "chain_set k v (buckets s1 ! ?i) = buckets s1 ! ?i" by (rule chain_set_id)
    with that e set_body_shape[OF sh, of k v]
    have "s2 = s1\<lparr>buckets := (buckets s1)[?i := buckets s1 ! ?i], size_hm := size_hm s1 + 1\<rparr>"
      by (simp add: set_hm_unfold)
    then show ?thesis by simp
  qed
  have grow: "2 * capacity s1 \<le> capacity s2 \<and>
      (\<exists>r. resize s1 (capacity s1 * 2) = Inr r \<and> set_body r k v = Inr s2)"
    if "over_threshold s1"
  proof -
    from that e obtain r where r: "resize s1 (capacity s1 * 2) = Inr r"
      and b: "set_body r k v = Inr s2"
      by (auto simp: set_hm_unfold split: sum.splits)
    from capacity_grows(2)[OF r] set_body_keeps_capacity[OF b]
    have "2 * capacity s1 \<le> capacity s2" by simp
    with r b show ?thesis by blast
  qed
  from e g h lf inv2 en stay grow show ?thesis by blast
qed

theorem set_twice_keeps_lookups_witness:
  "invar (new_map 2 (3 / 4) :: nat hashmap) \<and>
   set_hm (new_map 2 (3 / 4)) [97] (1 :: nat) =
     Inr \<lparr>loadFactor = 3 / 4, capacity = 2, buckets = [[], [([97], 1)]], size_hm = 1\<rparr> \<and>
   \<not> over_threshold
        \<lparr>loadFactor = 3 / 4, capacity = 2, buckets = [[], [([97], 1 :: nat)]], size_hm = 1\<rparr> \<and>
   (\<exists>s2. set_hm \<lparr>loadFactor = 3 / 4, capacity = 2, buckets = [[], [([97], 1 :: nat)]],
                  size_hm = 1\<rparr> [97] 1 = Inr s2 \<and>
         get s2 [97] = Some 1 \<and> has s2 [97] \<and> capacity s2 = 2 \<and>
         buckets s2 = [[], [([97], 1)]]) \<and>
   invar \<lparr>loadFactor = 1 / 128, capacity = 1, buckets = [[([98], 1 :: nat)]], size_hm = 1\<rparr> \<and>
   set_hm \<lparr>loadFactor = 1 / 128, capacity = 1, buckets = [[([98], 1 :: nat)]], size_hm = 1\<rparr>
       [97] 1 =
     Inr \<lparr>loadFactor = 1 / 128, capacity = 2, buckets = [[([98], 1)], [([97], 1)]],
          size_hm = 2\<rparr> \<and>
   over_threshold \<lparr>loadFactor = 1 / 128, capacity = 2,
                   buckets = [[([98], 1 :: nat)], [([97], 1)]], size_hm = 2\<rparr> \<and>
   (\<exists>s2. set_hm \<lparr>loadFactor = 1 / 128, capacity = 2,
                  buckets = [[([98], 1 :: nat)], [([97], 1)]], size_hm = 2\<rparr> [97] 1 = Inr s2 \<and>
         get s2 [97] = Some 1 \<and> get s2 [98] = Some 1 \<and>
         set (entries s2) = {([98], 1), ([97], 1)} \<and>
         4 \<le> capacity s2 \<and> capacity s2 = 8)"
proof -
  let ?a = "new_map 2 (3 / 4) :: nat hashmap"
  let ?a1 = "\<lparr>loadFactor = 3 / 4, capacity = 2, buckets = [[], [([97], 1 :: nat)]],
              size_hm = 1\<rparr>"
  let ?b = "\<lparr>loadFactor = 1 / 128, capacity = 1, buckets = [[([98], 1 :: nat)]],
             size_hm = 1\<rparr>"
  let ?b1 = "\<lparr>loadFactor = 1 / 128, capacity = 2,
              buckets = [[([98], 1 :: nat)], [([97], 1)]], size_hm = 2\<rparr>"
  let ?b2 = "\<lparr>loadFactor = 1 / 128, capacity = 8,
              buckets = [[], [([97], 1 :: nat)], [([98], 1)], [], [], [], [], []],
              size_hm = 3\<rparr>"
  have a1: "invar ?a" by code_simp
  have a2: "set_hm ?a [97] 1 = Inr ?a1" by code_simp
  have a3: "\<not> over_threshold ?a1" by code_simp
  have a4: "get ?a1 [97] = Some 1" "has ?a1 [97]" by code_simp+
  from set_twice_keeps_lookups [OF a1 a2] a3 a4 obtain s2
    where "set_hm ?a1 [97] 1 = Inr s2" "get s2 [97] = Some 1" "has s2 [97]" "capacity s2 = 2"
      "buckets s2 = [[], [([97], 1)]]"
    by auto
  then have a: "\<exists>s2. set_hm ?a1 [97] 1 = Inr s2 \<and>
         get s2 [97] = Some 1 \<and> has s2 [97] \<and> capacity s2 = 2 \<and>
         buckets s2 = [[], [([97], 1)]]"
    by blast
  have b1: "invar ?b" by code_simp
  have b2: "set_hm ?b [97] 1 = Inr ?b1" by code_simp
  have b3: "over_threshold ?b1" by code_simp
  have b4: "get ?b1 [97] = Some 1" "get ?b1 [98] = Some 1" by code_simp+
  have b5: "set (entries ?b1) = {([98], 1), ([97], 1)}" by (simp add: entries_def)
  have b6: "set_hm ?b1 [97] 1 = Inr ?b2" by code_simp
  from set_twice_keeps_lookups [OF b1 b2] b3 obtain s2
    where s2: "set_hm ?b1 [97] 1 = Inr s2" "get s2 = get ?b1"
      "set (entries s2) = set (entries ?b1)" "2 * capacity ?b1 \<le> capacity s2"
    by blast
  from s2(1) b6 have "capacity s2 = 8" by simp
  with s2 b4 b5 have "set_hm ?b1 [97] 1 = Inr s2 \<and>
         get s2 [97] = Some 1 \<and> get s2 [98] = Some 1 \<and>
         set (entries s2) = {([98], 1), ([97], 1)} \<and>
         4 \<le> capacity s2 \<and> capacity s2 = 8"
    by simp
  then have b: "\<exists>s2. set_hm ?b1 [97] 1 = Inr s2 \<and>
         get s2 [97] = Some 1 \<and> get s2 [98] = Some 1 \<and>
         set (entries s2) = {([98], 1), ([97], 1)} \<and>
         4 \<le> capacity s2 \<and> capacity s2 = 8"
    by blast
  from a1 a2 a3 a b1 b2 b3 b show ?thesis by (intro conjI)
qed

subsection \<open>C7: the hash\<close>

text \<open>
  C7. For every key and every map of positive capacity, \<^verbatim>\<open>hash(key)\<close> is the left fold
  from 0 of \<open>index = (31 * index + characterCode) mod capacity\<close> over the key's code units
  in order, and it lies in \<open>[0, capacity)\<close>; so, the bucket array having \<open>capacity\<close>
  slots, \<^verbatim>\<open>set\<close> never ends in its out-of-bounds error, neither for the key itself nor
  for a key re-inserted by a resize on the way.
\<close>

theorem hash_is_fold_in_range:
  assumes "0 < capacity s"
  shows "hash s key = Idx (hash_spec (capacity s) key) \<and>
         hash_spec (capacity s) key < capacity s \<and>
         (length (buckets s) = capacity s \<longrightarrow> set_hm s key val \<noteq> Inl OutOfBound)"
proof (intro conjI impI)
  show "hash s key = Idx (hash_spec (capacity s) key)"
    using assms by (rule hash_eq_spec)
  show "hash_spec (capacity s) key < capacity s"
    using assms by (rule hash_spec_less)
next
  assume "length (buckets s) = capacity s"
  with assms have "shape s" by (simp add: shape_def)
  from returns_shape(1)[OF this, of key val] show "set_hm s key val \<noteq> Inl OutOfBound"
    by auto
qed

theorem hash_is_fold_in_range_witness:
  "0 < capacity (new_map 16 (3 / 4) :: nat hashmap) \<and>
   hash (new_map 16 (3 / 4) :: nat hashmap) [97, 98] = Idx 1 \<and>
   hash_spec 16 [97, 98] = 1 \<and>
   length (buckets (new_map 16 (3 / 4) :: nat hashmap)) = 16 \<and>
   set_hm (new_map 16 (3 / 4)) [97, 98] (5 :: nat) \<noteq> Inl OutOfBound"
  using hash_is_fold_in_range [of "new_map 16 (3 / 4) :: nat hashmap" "[97, 98]" 5]
  by (simp add: new_map_def hash_spec_def)

subsection \<open>C8: remove\<close>

text \<open>
  C8. \<^verbatim>\<open>remove(k)\<close> returns true exactly when \<open>k\<close> is present; it then leaves the chain
  of the key's slot without its first node of that key (the head's successor becomes the
  head when that node is the head, the previous node is linked to its successor
  otherwise) and the size one less. When \<open>k\<close> is absent it returns false and the state
  is the one before. The capacity is never changed. On a map that satisfies the data
  model's invariant the key is gone after a removal, so a second \<^verbatim>\<open>remove(k)\<close> returns
  false and leaves the state, and with it \<^verbatim>\<open>length()\<close>, as it was.
\<close>

theorem remove_unlinks_once:
  "(has s k \<longrightarrow>
      (\<exists>i. hash s k = Idx i \<and> i < length (buckets s) \<and>
           remove_hm s k =
             (True, s\<lparr>buckets := (buckets s)[i := unlinked k (buckets s ! i)],
                      size_hm := size_hm s - 1\<rparr>))) \<and>
   (\<not> has s k \<longrightarrow> remove_hm s k = (False, s)) \<and>
   fst (remove_hm s k) = has s k \<and>
   capacity (snd (remove_hm s k)) = capacity s \<and>
   (invar s \<longrightarrow>
      remove_hm (snd (remove_hm s k)) k = (False, snd (remove_hm s k)) \<and>
      length_hm (snd (remove_hm (snd (remove_hm s k)) k)) = length_hm (snd (remove_hm s k)))"
proof (intro conjI impI)
  assume "has s k"
  then obtain i where i: "hash s k = Idx i" "i < length (buckets s)"
    "has_loop k (buckets s ! i)" by (rule has_slot)
  from i(1,2) remove_present[OF i]
  show "\<exists>i. hash s k = Idx i \<and> i < length (buckets s) \<and>
           remove_hm s k =
             (True, s\<lparr>buckets := (buckets s)[i := unlinked k (buckets s ! i)],
                      size_hm := size_hm s - 1\<rparr>)"
    by blast
next
  assume "\<not> has s k"
  then show "remove_hm s k = (False, s)" by (rule remove_absent)
next
  show "fst (remove_hm s k) = has s k"
  proof (cases "has s k")
    case True
    then obtain i where i: "hash s k = Idx i" "i < length (buckets s)"
      "has_loop k (buckets s ! i)" by (rule has_slot)
    from True remove_present[OF i] show ?thesis by simp
  next
    case False
    then show ?thesis by (simp add: remove_absent)
  qed
next
  show "capacity (snd (remove_hm s k)) = capacity s" by (rule remove_capacity)
next
  assume "invar s"
  from remove_invar[OF this, of k] have "\<not> has (snd (remove_hm s k)) k" by simp
  then show again: "remove_hm (snd (remove_hm s k)) k = (False, snd (remove_hm s k))"
    by (rule remove_absent)
  then show "length_hm (snd (remove_hm (snd (remove_hm s k)) k)) = length_hm (snd (remove_hm s k))"
    by simp
qed

theorem remove_unlinks_once_witness:
  "invar \<lparr>loadFactor = 3 / 4, capacity = 2, buckets = [[([98], 1 :: nat), ([100], 2)], []],
          size_hm = 2\<rparr> \<and>
   has \<lparr>loadFactor = 3 / 4, capacity = 2, buckets = [[([98], 1 :: nat), ([100], 2)], []],
        size_hm = 2\<rparr> [100] \<and>
   remove_hm \<lparr>loadFactor = 3 / 4, capacity = 2, buckets = [[([98], 1 :: nat), ([100], 2)], []],
              size_hm = 2\<rparr> [100] =
     (True, \<lparr>loadFactor = 3 / 4, capacity = 2, buckets = [[([98], 1)], []], size_hm = 1\<rparr>) \<and>
   remove_hm \<lparr>loadFactor = 3 / 4, capacity = 2, buckets = [[([98], 1 :: nat)], []],
              size_hm = 1\<rparr> [100] =
     (False, \<lparr>loadFactor = 3 / 4, capacity = 2, buckets = [[([98], 1)], []], size_hm = 1\<rparr>)"
  using remove_unlinks_once
    [of "\<lparr>loadFactor = 3 / 4, capacity = 2, buckets = [[([98], 1 :: nat), ([100], 2)], []],
          size_hm = 2\<rparr>" "[100]"]
  by (simp add: invar_def shape_def chain_ok_def hash_def has_def remove_hm_def unlinked_def)

subsection \<open>C9: clear\<close>

text \<open>
  C9. \<^verbatim>\<open>clear()\<close> replaces the bucket array with \<open>capacity\<close> empty slots and resets
  the size to 0, leaving capacity and load factor as they were; afterwards \<^verbatim>\<open>get\<close>
  finds nothing and \<^verbatim>\<open>has\<close> is false for every key (the previously stored ones among
  them), and \<^verbatim>\<open>length()\<close> is 0.
\<close>

theorem clear_empties:
  "buckets (clear s) = replicate (capacity s) [] \<and>
   size_hm (clear s) = 0 \<and>
   capacity (clear s) = capacity s \<and>
   loadFactor (clear s) = loadFactor s \<and>
   get (clear s) k = None \<and>
   \<not> has (clear s) k \<and>
   length_hm (clear s) = 0"
proof -
  have "get (clear s) k = None"
    by (rule get_no_chains[of _ "capacity s"]) (simp add: clear_def)
  then show ?thesis
    by (simp add: has_iff_get) (simp add: clear_def length_hm_def)
qed

subsection \<open>C10: the empty key\<close>

text \<open>
  C10. The empty string is a key like any other: its hash is 0 whatever the capacity, and
  on every map with a positive capacity and a bucket array of that length,
  \<^verbatim>\<open>set("", v)\<close> returns and leaves the entry \<open>("", v)\<close> in the chain of slot 0, after
  which \<^verbatim>\<open>get("")\<close> is \<open>v\<close> and \<^verbatim>\<open>has("")\<close> is true.
\<close>

theorem empty_key_in_slot_0:
  assumes "shape s"
  shows "hash s [] = Idx 0 \<and>
         (\<exists>s'. set_hm s [] v = Inr s' \<and>
               ([], v) \<in> set (buckets s' ! 0) \<and>
               get s' [] = Some v \<and>
               has s' [])"
proof -
  from set_hm_found[OF assms, of "[]" v] obtain s'
    where "set_hm s [] v = Inr s'" "get s' [] = Some v"
      "([], v) \<in> set (buckets s' ! hash_spec (capacity s') [])" by blast
  then show ?thesis
    by (auto simp: hash_def hash_spec_def has_iff_get)
qed

theorem empty_key_in_slot_0_witness:
  "shape (new_map 2 (3 / 4) :: nat hashmap) \<and>
   hash (new_map 2 (3 / 4) :: nat hashmap) [] = Idx 0 \<and>
   (\<exists>s'. set_hm (new_map 2 (3 / 4)) [] (7 :: nat) = Inr s' \<and>
         ([], 7) \<in> set (buckets s' ! 0) \<and>
         get s' [] = Some 7 \<and>
         has s' [])"
proof -
  have h: "shape (new_map 2 (3 / 4) :: nat hashmap)"
    by (simp add: shape_def new_map_def)
  show ?thesis
    using h empty_key_in_slot_0 [OF h, of 7] by simp
qed

end
